theory Spec2Isabelle
  imports Main "HOL-Library.Word"
begin

section \<open>Pointer subgraph: data model\<close>

text \<open>
  The development embeds \<^verbatim>\<open>src/analysis/PointsTo/PointerSubgraph.h\<close>.
  A \<^verbatim>\<open>PSNode *\<close> is an address, modelled as a natural number; the heap of
  nodes is a total function from addresses to node records. Where the source
  admits a null pointer, the model uses \<open>nat option\<close>.
\<close>

datatype PSNodeType =
    ALLOC | DYN_ALLOC | LOAD | STORE | GEP | PHI | CAST | FUNCTION | CALL
  | CALL_FUNCPTR | CALL_RETURN | ENTRY | RETURN | CONSTANT | NOOP | MEMCPY
  | NULL_ADDR | UNKNOWN_MEM

text \<open>
  Modelled from the spec: \<^verbatim>\<open>Pointer.h\<close> (the types \<^verbatim>\<open>Offset\<close>,
  \<^verbatim>\<open>Pointer\<close> and \<^verbatim>\<open>PointsToSetT\<close>) is not among the sources.
  Section 3.1 of the specification: an offset is either a concrete
  non-negative integer or the sentinel UNKNOWN. Section 3.2: a pointer is the pair
  of a target node and an offset, equal iff both components are equal.
  Section 3.3: a points-to set is a set of pointers.
\<close>

datatype Offset = Concrete nat | UNKNOWN_OFFSET

fun isUnknown :: "Offset \<Rightarrow> bool" where
  "isUnknown UNKNOWN_OFFSET = True"
| "isUnknown (Concrete _) = False"

type_synonym Pointer = "nat \<times> Offset"

type_synonym PointsToSetT = "Pointer set"

text \<open>
  The fields of \<^verbatim>\<open>class PSNode\<close>. The opaque slots \<^verbatim>\<open>data\<close>,
  \<^verbatim>\<open>user_data\<close> and \<^verbatim>\<open>name\<close> carry no behaviour and are left out.
  \<open>len\<close> is \<open>None\<close> while it holds the value of the default constructor of
  \<^verbatim>\<open>Offset\<close>, which the absent header defines.
\<close>

record PSNode =
  operands :: "nat list"
  successors :: "nat list"
  predecessors :: "nat list"
  type :: PSNodeType
  offset :: Offset
  len :: "Offset option"
  pairedNode :: "nat option"
  zeroInitialized :: bool
  is_heap :: bool
  size_ :: nat
  dfsid :: "32 word"
  pointsTo :: PointsToSetT

datatype error = AssertionFailed | MissingArgument | LengthError

subsection \<open>Points-to mutators\<close>

text \<open>
  Modelled from the spec: \<^verbatim>\<open>PSNode::addPointsToUnknownOffset\<close> is declared in
  the header and defined outside the sources. Section 3.3: inserting
  \<open>(t, UNKNOWN)\<close> replaces all \<open>(t, c\<^sub>i)\<close> by the UNKNOWN entry, and every
  mutation returns a boolean "changed".
\<close>

definition addPointsToUnknownOffset :: "nat \<Rightarrow> PSNode \<Rightarrow> bool \<times> PSNode" where
  "addPointsToUnknownOffset target nd =
     (let pts = insert (target, UNKNOWN_OFFSET)
                  {p \<in> pointsTo nd. \<not> (fst p = target \<and> \<not> isUnknown (snd p))}
      in (pts \<noteq> pointsTo nd, nd\<lparr>pointsTo := pts\<rparr>))"

text \<open>\<^verbatim>\<open>bool addPointsTo(PSNode *n, Offset o)\<close>, lines 414-425.\<close>

definition addPointsTo :: "nat \<Rightarrow> Offset \<Rightarrow> PSNode \<Rightarrow> bool \<times> PSNode" where
  "addPointsTo n o' nd =
     (if (n, UNKNOWN_OFFSET) \<in> pointsTo nd then (False, nd)
      else if isUnknown o' then addPointsToUnknownOffset n nd
      else ((n, o') \<notin> pointsTo nd, nd\<lparr>pointsTo := insert (n, o') (pointsTo nd)\<rparr>))"

text \<open>
  \<^verbatim>\<open>bool addPointsTo(const std::set<Pointer>& ptrs)\<close>, lines 432-439: the loop
  over \<open>ptrs\<close>, given here as the list of its elements in iteration order.
\<close>

fun addPointsTo_ptrs :: "Pointer list \<Rightarrow> bool \<Rightarrow> PSNode \<Rightarrow> bool \<times> PSNode" where
  "addPointsTo_ptrs [] changed nd = (changed, nd)"
| "addPointsTo_ptrs (ptr # ptrs) changed nd =
     (let (c, nd') = addPointsTo (fst ptr) (snd ptr) nd
      in addPointsTo_ptrs ptrs (changed \<or> c) nd')"

text \<open>\<^verbatim>\<open>bool doesPointsTo(const Pointer& p)\<close>.\<close>

definition doesPointsTo :: "Pointer \<Rightarrow> PSNode \<Rightarrow> bool" where
  "doesPointsTo p nd = (p \<in> pointsTo nd)"

subsection \<open>Construction\<close>

text \<open>
  The member initialisers of the constructor, before its body runs.
\<close>

definition PSNode_init :: "PSNodeType \<Rightarrow> PSNode" where
  "PSNode_init t =
     \<lparr>operands = [], successors = [], predecessors = [], type = t,
      offset = Concrete 0, len = None, pairedNode = None,
      zeroInitialized = False, is_heap = False, size_ = 0, dfsid = 0,
      pointsTo = {}\<rparr>"

text \<open>
  \<^verbatim>\<open>PSNode(PSNodeType t, ...)\<close>, lines 153-225. \<open>this\<close> is the address of the
  node under construction. The variadic arguments are given as the list of
  the pointer arguments (for the null-terminated kinds, those before the
  terminator) and the list of the integer arguments, already as offsets.
  Reading an argument that was not passed is undefined in C++; the model
  returns \<open>MissingArgument\<close>. The \<^verbatim>\<open>default\<close> branch is unreachable, the
  enumeration being closed.
\<close>

fun PSNode_new :: "nat \<Rightarrow> PSNodeType \<Rightarrow> nat list \<Rightarrow> Offset list \<Rightarrow> error + PSNode" where
  "PSNode_new this ALLOC ps os = Inr (snd (addPointsTo this (Concrete 0) (PSNode_init ALLOC)))"
| "PSNode_new this DYN_ALLOC ps os = Inr (snd (addPointsTo this (Concrete 0) (PSNode_init DYN_ALLOC)))"
| "PSNode_new this FUNCTION ps os = Inr (snd (addPointsTo this (Concrete 0) (PSNode_init FUNCTION)))"
| "PSNode_new this NOOP ps os = Inr (PSNode_init NOOP)"
| "PSNode_new this ENTRY ps os = Inr (PSNode_init ENTRY)"
| "PSNode_new this CAST (p # ps) os = Inr ((PSNode_init CAST)\<lparr>operands := [p]\<rparr>)"
| "PSNode_new this LOAD (p # ps) os = Inr ((PSNode_init LOAD)\<lparr>operands := [p]\<rparr>)"
| "PSNode_new this CALL_FUNCPTR (p # ps) os = Inr ((PSNode_init CALL_FUNCPTR)\<lparr>operands := [p]\<rparr>)"
| "PSNode_new this STORE (p # q # ps) os = Inr ((PSNode_init STORE)\<lparr>operands := [p, q]\<rparr>)"
| "PSNode_new this MEMCPY (p # q # ps) (off # l # os) =
     Inr ((PSNode_init MEMCPY)\<lparr>operands := [p, q], offset := off, len := Some l\<rparr>)"
| "PSNode_new this GEP (p # ps) (off # os) =
     Inr ((PSNode_init GEP)\<lparr>operands := [p], offset := off\<rparr>)"
| "PSNode_new this CONSTANT (op # ps) (off # os) =
     Inr ((PSNode_init CONSTANT)\<lparr>offset := off, pointsTo := insert (op, off) {}\<rparr>)"
| "PSNode_new this NULL_ADDR ps os =
     Inr ((PSNode_init NULL_ADDR)\<lparr>pointsTo := insert (this, Concrete 0) {}\<rparr>)"
| "PSNode_new this UNKNOWN_MEM ps os =
     Inr ((PSNode_init UNKNOWN_MEM)\<lparr>pointsTo := insert (this, UNKNOWN_OFFSET) {}\<rparr>)"
| "PSNode_new this CALL_RETURN ps os = Inr ((PSNode_init CALL_RETURN)\<lparr>operands := ps\<rparr>)"
| "PSNode_new this PHI ps os = Inr ((PSNode_init PHI)\<lparr>operands := ps\<rparr>)"
| "PSNode_new this RETURN ps os = Inr ((PSNode_init RETURN)\<lparr>operands := ps\<rparr>)"
| "PSNode_new this CALL ps os = Inr ((PSNode_init CALL)\<lparr>operands := ps\<rparr>)"
| "PSNode_new this _ _ _ = Inl MissingArgument"

subsection \<open>Operands\<close>

text \<open>
  \<^verbatim>\<open>PSNode *getOperand(int idx) const\<close>, lines 268-274. \<open>idx\<close> is a C++
  \<^verbatim>\<open>int\<close>, a 32-bit word read as signed; the cast to \<^verbatim>\<open>size_t\<close> of a
  non-negative \<^verbatim>\<open>int\<close> keeps its value. The assertion is modelled as active.
\<close>

definition getOperand :: "32 word \<Rightarrow> PSNode \<Rightarrow> error + nat" where
  "getOperand idx nd =
     (if 0 \<le> sint idx \<and> nat (sint idx) < length (operands nd)
      then Inr (operands nd ! nat (sint idx))
      else Inl AssertionFailed)"

text \<open>\<^verbatim>\<open>size_t addOperand(PSNode *n)\<close>.\<close>

definition addOperand :: "nat \<Rightarrow> PSNode \<Rightarrow> nat \<times> PSNode" where
  "addOperand n nd = (length (operands nd) + 1, nd\<lparr>operands := operands nd @ [n]\<rparr>)"

section \<open>Graph mutation primitives\<close>

text \<open>The heap of nodes: every \<^verbatim>\<open>PSNode *\<close> is dereferenced through it.\<close>

type_synonym heap = "nat \<Rightarrow> PSNode"

text \<open>\<^verbatim>\<open>void addSuccessor(PSNode *succ)\<close>, lines 294-298.\<close>

definition addSuccessor :: "nat \<Rightarrow> nat \<Rightarrow> heap \<Rightarrow> heap" where
  "addSuccessor this succ g =
     (let g1 = g(this := (g this)\<lparr>successors := successors (g this) @ [succ]\<rparr>)
      in g1(succ := (g1 succ)\<lparr>predecessors := predecessors (g1 succ) @ [this]\<rparr>))"

text \<open>
  \<^verbatim>\<open>void replaceSingleSuccessor(PSNode *succ)\<close>, lines 300-317. The loop
  \<^verbatim>\<open>for (PSNode *p : old->predecessors) tmp.push_back(p);\<close> is
  \<open>copy_preds\<close>. \<^verbatim>\<open>tmp.reserve(old->predecessorsNum() - 1)\<close> is computed
  in \<^verbatim>\<open>size_t\<close>: with no predecessor the request wraps to the largest
  value and \<^verbatim>\<open>reserve\<close> throws.
\<close>

fun copy_preds :: "nat list \<Rightarrow> nat list \<Rightarrow> nat list" where
  "copy_preds [] tmp = tmp"
| "copy_preds (p # ps) tmp = copy_preds ps (tmp @ [p])"

definition replaceSingleSuccessor :: "nat \<Rightarrow> nat \<Rightarrow> heap \<Rightarrow> error + heap" where
  "replaceSingleSuccessor this succ g =
     (if length (successors (g this)) \<noteq> 1 then Inl AssertionFailed
      else
        let old = successors (g this) ! 0;
            g1 = g(this := (g this)\<lparr>successors := []\<rparr>);
            g2 = addSuccessor this succ g1
        in if predecessors (g2 old) = [] then Inl LengthError
           else
             let tmp = copy_preds (predecessors (g2 old)) []
             in Inr (g2(old := (g2 old)\<lparr>predecessors := tmp\<rparr>)))"

text \<open>
  \<^verbatim>\<open>void insertAfter(PSNode *n)\<close>, lines 340-358. \<open>replace_ref\<close> is the inner
  loop over the indices of \<^verbatim>\<open>succ->predecessors\<close>, \<open>replace_in_succs\<close> the
  outer loop over the successors taken over (the loop body writes
  predecessor lists only, so the list iterated is the one read at the start).
\<close>

fun replace_ref :: "nat \<Rightarrow> nat \<Rightarrow> nat list \<Rightarrow> nat list" where
  "replace_ref n this [] = []"
| "replace_ref n this (p # ps) = (if p = n then this else p) # replace_ref n this ps"

fun replace_in_succs :: "nat \<Rightarrow> nat \<Rightarrow> nat list \<Rightarrow> heap \<Rightarrow> heap" where
  "replace_in_succs n this [] g = g"
| "replace_in_succs n this (succ # ss) g =
     replace_in_succs n this ss
       (g(succ := (g succ)\<lparr>predecessors := replace_ref n this (predecessors (g succ))\<rparr>))"

definition insertAfter :: "nat \<Rightarrow> nat \<Rightarrow> heap \<Rightarrow> error + heap" where
  "insertAfter this n g =
     (if length (predecessors (g this)) \<noteq> 0 then Inl AssertionFailed
      else if length (successors (g this)) \<noteq> 0 then Inl AssertionFailed
      else
        let mine = successors (g this);
            theirs = successors (g n);
            g1 = g(this := (g this)\<lparr>successors := theirs\<rparr>);
            g2 = g1(n := (g1 n)\<lparr>successors := mine\<rparr>);
            g3 = addSuccessor n this g2
        in Inr (replace_in_succs n this (successors (g3 this)) g3))"

section \<open>The solver\<close>

text \<open>
  \<^verbatim>\<open>class PointerSubgraph\<close>: the counter \<^verbatim>\<open>dfsnum\<close> (an
  \<^verbatim>\<open>unsigned int\<close>, 32 bits), the root, the queue, together with the heap its
  nodes live in. \<open>aux\<close> is the state a subclass adds (memory objects, logs).
  \<^verbatim>\<open>ADT::QueueFIFO\<close> comes from the absent \<^verbatim>\<open>ADT/Queue.h\<close>; as a
  first-in-first-out queue it is a list, \<^verbatim>\<open>push\<close> appending at the back and
  \<^verbatim>\<open>pop\<close> taking the front.
\<close>

record 'u PointerSubgraph =
  nodes :: heap
  dfsnum :: "32 word"
  root :: "nat option"
  queue :: "nat list"
  aux :: 'u

text \<open>
  A computation either does not return (\<open>None\<close>), aborts with an error, or
  returns a value.
\<close>

type_synonym 'a comp = "(error + 'a) option"

definition bind_comp :: "'a comp \<Rightarrow> ('a \<Rightarrow> 'b comp) \<Rightarrow> 'b comp" where
  "bind_comp m f = (case m of None \<Rightarrow> None | Some (Inl e) \<Rightarrow> Some (Inl e) | Some (Inr x) \<Rightarrow> f x)"

definition return_comp :: "'a \<Rightarrow> 'a comp" where
  "return_comp x = Some (Inr x)"

subsection \<open>Traversal enumerator\<close>

text \<open>
  The loop \<^verbatim>\<open>for (PSNode *succ : cur->successors)\<close> of lines 561-566: an
  unmarked successor is marked with the current \<^verbatim>\<open>dfsnum\<close> and pushed.
\<close>

fun mark_succs :: "32 word \<Rightarrow> nat list \<Rightarrow> nat list \<Rightarrow> heap \<Rightarrow> nat list \<times> heap" where
  "mark_succs dn [] fifo g = (fifo, g)"
| "mark_succs dn (succ # ss) fifo g =
     (if dfsid (g succ) \<noteq> dn
      then mark_succs dn ss (fifo @ [succ]) (g(succ := (g succ)\<lparr>dfsid := dn\<rparr>))
      else mark_succs dn ss fifo g)"

text \<open>The loop \<^verbatim>\<open>while (!fifo.empty())\<close> of lines 557-567.\<close>

partial_function (option) getNodes_loop ::
  "32 word \<Rightarrow> nat list \<Rightarrow> nat list \<Rightarrow> heap \<Rightarrow> (nat list \<times> heap) option" where
  "getNodes_loop dn fifo cont g =
     (case fifo of
        [] \<Rightarrow> Some (cont, g)
      | cur # rest \<Rightarrow>
          (case mark_succs dn (successors (g cur)) rest g of
             (fifo', g') \<Rightarrow> getNodes_loop dn fifo' (cont @ [cur]) g'))"

declare getNodes_loop.simps [code]

text \<open>
  The template \<^verbatim>\<open>getNodes(ContT& cont, PSNode *start_node, std::set<PSNode *>
  *start_set)\<close>, lines 531-568. The container is a list and \<^verbatim>\<open>cont.push\<close>
  appends to it. A \<^verbatim>\<open>std::set<PSNode *>\<close> iterates in ascending order of
  address.
\<close>

definition getNodes ::
  "nat list \<Rightarrow> nat option \<Rightarrow> nat set option \<Rightarrow> 'u PointerSubgraph
     \<Rightarrow> (nat list \<times> 'u PointerSubgraph) comp" where
  "getNodes cont start_node start_set s =
     (case root s of
        None \<Rightarrow> Some (Inl AssertionFailed)
      | Some r \<Rightarrow>
          if start_set \<noteq> None \<and> start_node \<noteq> None then Some (Inl AssertionFailed)
          else
            let dn = dfsnum s + 1;
                fifo = (case start_set of
                          Some ss \<Rightarrow> sorted_list_of_set ss
                        | None \<Rightarrow> [case start_node of None \<Rightarrow> r | Some n \<Rightarrow> n]);
                g = (nodes s)(r := (nodes s r)\<lparr>dfsid := dn\<rparr>)
            in case getNodes_loop dn fifo cont g of
                 None \<Rightarrow> None
               | Some (cont', g') \<Rightarrow> Some (Inr (cont', s\<lparr>dfsnum := dn, nodes := g'\<rparr>)))"

subsection \<open>Hooks and the main loop\<close>

text \<open>
  The virtual member functions a subclass may override, and
  \<^verbatim>\<open>processNode\<close>, which the header declares and the sources do not define.
\<close>

record 'u hooks =
  beforeProcessed :: "nat \<Rightarrow> 'u PointerSubgraph \<Rightarrow> 'u PointerSubgraph comp"
  processNode :: "nat \<Rightarrow> 'u PointerSubgraph \<Rightarrow> (bool \<times> 'u PointerSubgraph) comp"
  enqueue :: "nat \<Rightarrow> 'u PointerSubgraph \<Rightarrow> 'u PointerSubgraph comp"
  afterProcessed :: "nat \<Rightarrow> 'u PointerSubgraph \<Rightarrow> 'u PointerSubgraph comp"

text \<open>\<^verbatim>\<open>virtual void enqueue(PSNode *n)\<close>, lines 570-574: \<^verbatim>\<open>getNodes(queue, n)\<close>.\<close>

definition enqueue_default :: "nat \<Rightarrow> 'u PointerSubgraph \<Rightarrow> 'u PointerSubgraph comp" where
  "enqueue_default n s =
     bind_comp (getNodes (queue s) (Some n) None s)
       (\<lambda>(cont, s'). return_comp (s'\<lparr>queue := cont\<rparr>))"

text \<open>The default \<^verbatim>\<open>beforeProcessed\<close> and \<^verbatim>\<open>afterProcessed\<close> do nothing.\<close>

definition hook_default :: "nat \<Rightarrow> 'u PointerSubgraph \<Rightarrow> 'u PointerSubgraph comp" where
  "hook_default n s = return_comp s"

text \<open>
  The body of the loops at lines 600-608 and 621-629, after \<^verbatim>\<open>cur\<close> has been
  popped.
\<close>

definition loop_body :: "'u hooks \<Rightarrow> nat \<Rightarrow> 'u PointerSubgraph \<Rightarrow> 'u PointerSubgraph comp" where
  "loop_body h cur s =
     bind_comp (beforeProcessed h cur s) (\<lambda>s1.
     bind_comp (processNode h cur s1) (\<lambda>(changed, s2).
     bind_comp (if changed then enqueue h cur s2 else return_comp s2) (\<lambda>s3.
     afterProcessed h cur s3)))"

partial_function (option) run_loop ::
  "'u hooks \<Rightarrow> 'u PointerSubgraph \<Rightarrow> 'u PointerSubgraph comp" where
  "run_loop h s =
     (case queue s of
        [] \<Rightarrow> Some (Inr s)
      | cur # rest \<Rightarrow>
          (case loop_body h cur (s\<lparr>queue := rest\<rparr>) of
             None \<Rightarrow> None
           | Some (Inl e) \<Rightarrow> Some (Inl e)
           | Some (Inr s') \<Rightarrow> run_loop h s'))"

declare run_loop.simps [code]

text \<open>
  The body of the loop at lines 640-649, compiled under
  \<^verbatim>\<open>DEBUG_ENABLED\<close>: the result of \<^verbatim>\<open>processNode\<close> is stored and never
  read, the assertion being commented out.
\<close>

definition debug_body :: "'u hooks \<Rightarrow> nat \<Rightarrow> 'u PointerSubgraph \<Rightarrow> 'u PointerSubgraph comp" where
  "debug_body h cur s =
     bind_comp (beforeProcessed h cur s) (\<lambda>s1.
     bind_comp (processNode h cur s1) (\<lambda>(changed, s2).
     afterProcessed h cur s2))"

partial_function (option) debug_loop ::
  "'u hooks \<Rightarrow> 'u PointerSubgraph \<Rightarrow> 'u PointerSubgraph comp" where
  "debug_loop h s =
     (case queue s of
        [] \<Rightarrow> Some (Inr s)
      | cur # rest \<Rightarrow>
          (case debug_body h cur (s\<lparr>queue := rest\<rparr>) of
             None \<Rightarrow> None
           | Some (Inl e) \<Rightarrow> Some (Inl e)
           | Some (Inr s') \<Rightarrow> debug_loop h s'))"

declare debug_loop.simps [code]

text \<open>
  \<^verbatim>\<open>queue.push(root); getNodes(queue);\<close>, lines 597-598 and 636-637. The
  member \<^verbatim>\<open>root\<close> is read each time. Were it null, the assertion at the
  head of \<^verbatim>\<open>getNodes\<close> would fail right after the push.
\<close>

definition seed_queue :: "'u PointerSubgraph \<Rightarrow> 'u PointerSubgraph comp" where
  "seed_queue s =
     (case root s of
        None \<Rightarrow> Some (Inl AssertionFailed)
      | Some r \<Rightarrow>
          bind_comp (getNodes (queue s @ [r]) None None s)
            (\<lambda>(cont, s'). return_comp (s'\<lparr>queue := cont\<rparr>)))"

text \<open>
  \<^verbatim>\<open>void run()\<close>, lines 592-651. \<open>debug\<close> tells whether
  \<^verbatim>\<open>DEBUG_ENABLED\<close> is defined.
\<close>

definition run :: "bool \<Rightarrow> 'u hooks \<Rightarrow> 'u PointerSubgraph \<Rightarrow> 'u PointerSubgraph comp" where
  "run debug h s =
     (case root s of
        None \<Rightarrow> Some (Inl AssertionFailed)
      | Some r \<Rightarrow>
          bind_comp (seed_queue s) (\<lambda>s1.
          bind_comp (run_loop h s1) (\<lambda>s2.
          bind_comp (run_loop h s2) (\<lambda>s3.
          if debug then bind_comp (seed_queue s3) (debug_loop h)
          else return_comp s3))))"

text \<open>\<^verbatim>\<open>run()\<close> with the second loop, lines 621-629, removed.\<close>

definition run_single :: "bool \<Rightarrow> 'u hooks \<Rightarrow> 'u PointerSubgraph \<Rightarrow> 'u PointerSubgraph comp" where
  "run_single debug h s =
     (case root s of
        None \<Rightarrow> Some (Inl AssertionFailed)
      | Some r \<Rightarrow>
          bind_comp (seed_queue s) (\<lambda>s1.
          bind_comp (run_loop h s1) (\<lambda>s3.
          if debug then bind_comp (seed_queue s3) (debug_loop h)
          else return_comp s3)))"

definition map_comp :: "('a \<Rightarrow> 'b) \<Rightarrow> 'a comp \<Rightarrow> 'b comp" where
  "map_comp f m = bind_comp m (\<lambda>x. return_comp (f x))"

subsection \<open>Transfer functions\<close>

text \<open>
  Modelled from the spec: \<^verbatim>\<open>PointerSubgraph::processNode\<close> is declared in the
  header (line 475) and defined outside the sources. Section 4.1 of the
  specification gives the transfer function of every kind: none for the
  allocation kinds, NOOP, ENTRY, CONSTANT and the two sentinels, whose sets
  are constant; CAST copies the operand's set into the node's own; GEP adds,
  for each \<open>(t, o)\<close> of its base, \<open>(t, o \<oplus> offset)\<close>, where \<open>\<oplus>\<close> is
  addition of concrete offsets and UNKNOWN otherwise; PHI, CALL_RETURN, RETURN
  and CALL take the union of the sets of all operands. Additions obey the
  saturation rule of section 3.3, and the result tells whether the set
  changed. LOAD, STORE, MEMCPY and CALL_FUNCPTR go through the memory-object
  collaborator and the function-pointer hook (section 4.3); they are the
  parameter \<open>collab\<close>.
\<close>

definition sat_union :: "PointsToSetT \<Rightarrow> PointsToSetT \<Rightarrow> PointsToSetT" where
  "sat_union P Q =
     {p \<in> P \<union> Q. isUnknown (snd p) \<or> (fst p, UNKNOWN_OFFSET) \<notin> P \<union> Q}"

fun offset_plus :: "Offset \<Rightarrow> Offset \<Rightarrow> Offset" where
  "offset_plus (Concrete a) (Concrete b) = Concrete (a + b)"
| "offset_plus _ _ = UNKNOWN_OFFSET"

definition absorb :: "nat \<Rightarrow> PointsToSetT \<Rightarrow> 'u PointerSubgraph \<Rightarrow> bool \<times> 'u PointerSubgraph" where
  "absorb n Q s =
     (let P = pointsTo (nodes s n); P' = sat_union P Q
      in (P' \<noteq> P, s\<lparr>nodes := (nodes s)(n := (nodes s n)\<lparr>pointsTo := P'\<rparr>)\<rparr>))"

definition absorb_operands :: "nat \<Rightarrow> 'u PointerSubgraph \<Rightarrow> bool \<times> 'u PointerSubgraph" where
  "absorb_operands n s =
     absorb n (\<Union>x \<in> set (operands (nodes s n)). pointsTo (nodes s x)) s"

definition processNode_spec ::
  "(nat \<Rightarrow> 'u PointerSubgraph \<Rightarrow> (bool \<times> 'u PointerSubgraph) comp)
     \<Rightarrow> nat \<Rightarrow> 'u PointerSubgraph \<Rightarrow> (bool \<times> 'u PointerSubgraph) comp" where
  "processNode_spec collab n s =
     (case type (nodes s n) of
        ALLOC \<Rightarrow> return_comp (False, s)
      | DYN_ALLOC \<Rightarrow> return_comp (False, s)
      | LOAD \<Rightarrow> collab n s
      | STORE \<Rightarrow> collab n s
      | GEP \<Rightarrow>
          (case getOperand 0 (nodes s n) of
             Inl e \<Rightarrow> Some (Inl e)
           | Inr x \<Rightarrow>
               return_comp
                 (absorb n ((\<lambda>p. (fst p, offset_plus (snd p) (offset (nodes s n))))
                              ` pointsTo (nodes s x)) s))
      | PHI \<Rightarrow> return_comp (absorb_operands n s)
      | CAST \<Rightarrow>
          (case getOperand 0 (nodes s n) of
             Inl e \<Rightarrow> Some (Inl e)
           | Inr x \<Rightarrow> return_comp (absorb n (pointsTo (nodes s x)) s))
      | FUNCTION \<Rightarrow> return_comp (False, s)
      | CALL \<Rightarrow> return_comp (absorb_operands n s)
      | CALL_FUNCPTR \<Rightarrow> collab n s
      | CALL_RETURN \<Rightarrow> return_comp (absorb_operands n s)
      | ENTRY \<Rightarrow> return_comp (False, s)
      | RETURN \<Rightarrow> return_comp (absorb_operands n s)
      | CONSTANT \<Rightarrow> return_comp (False, s)
      | NOOP \<Rightarrow> return_comp (False, s)
      | MEMCPY \<Rightarrow> collab n s
      | NULL_ADDR \<Rightarrow> return_comp (False, s)
      | UNKNOWN_MEM \<Rightarrow> return_comp (False, s))"

text \<open>
  The solver with the default hooks of the header and the transfer functions
  above.
\<close>

definition spec_hooks ::
  "(nat \<Rightarrow> 'u PointerSubgraph \<Rightarrow> (bool \<times> 'u PointerSubgraph) comp) \<Rightarrow> 'u hooks" where
  "spec_hooks collab =
     \<lparr>beforeProcessed = hook_default, processNode = processNode_spec collab,
      enqueue = enqueue_default, afterProcessed = hook_default\<rparr>"

text \<open>A collaborator that is never consulted: it changes nothing.\<close>

definition no_collab :: "nat \<Rightarrow> 'u PointerSubgraph \<Rightarrow> (bool \<times> 'u PointerSubgraph) comp" where
  "no_collab n s = return_comp (False, s)"

subsection \<open>A subclass that records the calls of its hooks\<close>



section \<open>Concrete graphs\<close>

text \<open>A node created by the constructor, or \<open>NOOP\<close> where construction fails.\<close>

definition mk :: "nat \<Rightarrow> PSNodeType \<Rightarrow> nat list \<Rightarrow> PSNode" where
  "mk this t ps = (case PSNode_new this t ps [] of Inr nd \<Rightarrow> nd | Inl e \<Rightarrow> PSNode_init NOOP)"

text \<open>\<open>link es g\<close> calls \<^verbatim>\<open>a->addSuccessor(b)\<close> for each pair \<open>(a, b)\<close> in turn.\<close>

fun link :: "(nat \<times> nat) list \<Rightarrow> heap \<Rightarrow> heap" where
  "link [] g = g"
| "link ((a, b) # es) g = link es (addSuccessor a b g)"

definition graph :: "heap \<Rightarrow> nat \<Rightarrow> 'u \<Rightarrow> 'u PointerSubgraph" where
  "graph g r u = \<lparr>nodes = g, dfsnum = 0, root = Some r, queue = [], aux = u\<rparr>"

text \<open>
  A loop whose header is the root: \<open>0 \<rightarrow> 1 \<rightarrow> 2 \<rightarrow> 3 \<rightarrow> 0\<close>, with the root
  \<open>0 = CAST(3)\<close>, \<open>1 = CAST(2)\<close>, \<open>2 = CAST(0)\<close>, \<open>3 = CAST(4)\<close>, and
  \<open>4\<close> an allocation that is an operand only.
\<close>

definition loop_heap :: heap where
  "loop_heap =
     link [(0, 1), (1, 2), (2, 3), (3, 0)]
       ((\<lambda>_. PSNode_init NOOP)
          (0 := mk 0 CAST [3], 1 := mk 1 CAST [2], 2 := mk 2 CAST [0],
           3 := mk 3 CAST [4], 4 := mk 4 ALLOC []))"

text \<open>Two nodes on a cycle, \<open>0 \<rightarrow> 1 \<rightarrow> 0\<close>, the root being \<open>0\<close>.\<close>

definition cycle_heap :: heap where
  "cycle_heap =
     link [(0, 1), (1, 0)]
       ((\<lambda>_. PSNode_init NOOP)(0 := mk 0 NOOP [], 1 := mk 1 NOOP []))"

text \<open>The root \<open>0\<close> leading into the cycle \<open>1 \<rightarrow> 2 \<rightarrow> 1\<close>.\<close>

definition lasso_heap :: heap where
  "lasso_heap =
     link [(0, 1), (1, 2), (2, 1)]
       ((\<lambda>_. PSNode_init NOOP)(0 := mk 0 NOOP [], 1 := mk 1 NOOP [], 2 := mk 2 NOOP []))"

text \<open>The root \<open>0 = CAST(1)\<close> with the successor \<open>1\<close>, a null sentinel.\<close>

definition sentinel_heap :: heap where
  "sentinel_heap =
     link [(0, 1)]
       ((\<lambda>_. PSNode_init NOOP)(0 := mk 0 CAST [1], 1 := mk 1 NULL_ADDR []))"

text \<open>A chain \<open>0 \<rightarrow> 1\<close> and two nodes \<open>2\<close>, \<open>3\<close> without edges.\<close>

definition chain_heap :: heap where
  "chain_heap =
     link [(0, 1)]
       ((\<lambda>_. PSNode_init NOOP)(0 := mk 0 NOOP [], 1 := mk 1 NOOP []))"


text \<open>The two edge lists of the node at an address.\<close>

definition edges_of :: "nat \<Rightarrow> heap \<Rightarrow> nat list \<times> nat list" where
  "edges_of n g = (successors (g n), predecessors (g n))"

section \<open>Predicates of the specification\<close>

text \<open>
  Saturation (section 3.3, property P2): no target occurs both with the
  UNKNOWN offset and with a concrete one.
\<close>

definition saturated :: "PointsToSetT \<Rightarrow> bool" where
  "saturated pts = (\<forall>t c. \<not> ((t, UNKNOWN_OFFSET) \<in> pts \<and> (t, Concrete c) \<in> pts))"

text \<open>A sequence of calls \<^verbatim>\<open>addPointsTo(t, o)\<close> on one node.\<close>

fun addPointsTo_calls :: "Pointer list \<Rightarrow> PSNode \<Rightarrow> PSNode" where
  "addPointsTo_calls [] nd = nd"
| "addPointsTo_calls (c # cs) nd = addPointsTo_calls cs (snd (addPointsTo (fst c) (snd c) nd))"

text \<open>
  Edge symmetry (section 3.4, property P3): \<open>b\<close> occurs among the successors
  of \<open>a\<close> as often as \<open>a\<close> among the predecessors of \<open>b\<close>.
\<close>

definition edge_symmetric :: "heap \<Rightarrow> bool" where
  "edge_symmetric g =
     (\<forall>a b. count_list (successors (g a)) b = count_list (predecessors (g b)) a)"

text \<open>The nodes reachable from \<open>n\<close> along successor edges, \<open>n\<close> included.\<close>

inductive_set reach :: "heap \<Rightarrow> nat \<Rightarrow> nat set" for g :: heap and n :: nat where
  start: "n \<in> reach g n"
| step: "m \<in> reach g n \<Longrightarrow> k \<in> set (successors (g m)) \<Longrightarrow> k \<in> reach g n"

text \<open>
  The nodes reachable from \<open>n\<close> in one step or more along successor edges
  without entering \<open>r\<close>.
\<close>

inductive_set reach_avoiding :: "heap \<Rightarrow> nat \<Rightarrow> nat \<Rightarrow> nat set"
  for g :: heap and r :: nat and n :: nat where
  direct: "k \<in> set (successors (g n)) \<Longrightarrow> k \<noteq> r \<Longrightarrow> k \<in> reach_avoiding g r n"
| onward: "m \<in> reach_avoiding g r n \<Longrightarrow> k \<in> set (successors (g m)) \<Longrightarrow> k \<noteq> r
             \<Longrightarrow> k \<in> reach_avoiding g r n"

text \<open>
  The nodes a traversal with the number \<open>dn\<close> discovers from the queued
  nodes \<open>S\<close>: those reached in one step or more through nodes not yet
  marked with \<open>dn\<close>.
\<close>

inductive_set found :: "heap \<Rightarrow> 32 word \<Rightarrow> nat set \<Rightarrow> nat set"
  for g :: heap and dn :: "32 word" and S :: "nat set" where
  direct: "m \<in> S \<Longrightarrow> k \<in> set (successors (g m)) \<Longrightarrow> dfsid (g k) \<noteq> dn
             \<Longrightarrow> k \<in> found g dn S"
| onward: "m \<in> found g dn S \<Longrightarrow> k \<in> set (successors (g m)) \<Longrightarrow> dfsid (g k) \<noteq> dn
             \<Longrightarrow> k \<in> found g dn S"

text \<open>
  A collaborator leaves node \<open>m\<close> alone when processing any other node
  changes neither the kind nor the points-to set of \<open>m\<close>: section 4.3 has
  LOAD write the set of the processed node, and STORE and MEMCPY write
  memory objects.
\<close>

definition leaves_alone ::
  "(nat \<Rightarrow> 'u PointerSubgraph \<Rightarrow> (bool \<times> 'u PointerSubgraph) comp) \<Rightarrow> nat \<Rightarrow> bool" where
  "leaves_alone collab m =
     (\<forall>n s c s'. collab n s = Some (Inr (c, s')) \<longrightarrow> n \<noteq> m \<longrightarrow>
        type (nodes s' m) = type (nodes s m) \<and> pointsTo (nodes s' m) = pointsTo (nodes s m))"

text \<open>Two heaps that differ in the visit marks \<^verbatim>\<open>dfsid\<close> at most.\<close>

definition same_but_marks :: "heap \<Rightarrow> heap \<Rightarrow> bool" where
  "same_but_marks g g' = (\<forall>m. g' m = (g m)\<lparr>dfsid := dfsid (g' m)\<rparr>)"

section \<open>Properties of the points-to mutators\<close>

lemma isUnknown_iff: "isUnknown o' \<longleftrightarrow> o' = UNKNOWN_OFFSET"
  by (cases o') simp_all

lemma addPointsTo_saturated:
  "saturated (pointsTo nd) \<Longrightarrow> saturated (pointsTo (snd (addPointsTo t o' nd)))"
  by (cases o')
     (auto simp: addPointsTo_def addPointsToUnknownOffset_def saturated_def Let_def)

lemma addPointsTo_calls_saturated:
  "saturated (pointsTo nd) \<Longrightarrow> saturated (pointsTo (addPointsTo_calls cs nd))"
  by (induction cs arbitrary: nd) (simp_all add: addPointsTo_saturated)

lemma PSNode_new_saturated:
  "PSNode_new this t ps os = Inr nd \<Longrightarrow> saturated (pointsTo nd)"
  by (induction this t ps os rule: PSNode_new.induct)
     (auto simp: saturated_def addPointsTo_def PSNode_init_def)

lemma addPointsTo_ptrs_calls:
  "snd (addPointsTo_ptrs ptrs c nd) = addPointsTo_calls ptrs nd"
  by (induction ptrs arbitrary: c nd) (simp_all add: split_def Let_def)

lemma addPointsTo_concrete_noop:
  "(t, UNKNOWN_OFFSET) \<in> pointsTo nd \<Longrightarrow> addPointsTo t o' nd = (False, nd)"
  by (simp add: addPointsTo_def)

lemma addPointsTo_unknown_replaces:
  "saturated (pointsTo nd) \<Longrightarrow>
   pointsTo (snd (addPointsTo t UNKNOWN_OFFSET nd)) =
     insert (t, UNKNOWN_OFFSET) {p \<in> pointsTo nd. fst p \<noteq> t}"
  apply (auto simp: addPointsTo_def addPointsToUnknownOffset_def saturated_def Let_def isUnknown_iff)
  subgoal for b by (cases b) auto
  done

section \<open>Evaluation on concrete graphs\<close>

lemmas graph_eval = loop_heap_def cycle_heap_def lasso_heap_def chain_heap_def
  sentinel_heap_def mk_def PSNode_init_def
  addPointsTo_def addSuccessor_def graph_def edges_of_def Let_def

lemmas comp_eval = bind_comp_def return_comp_def map_comp_def

lemmas solver_eval = getNodes_def seed_queue_def enqueue_default_def hook_default_def
  loop_body_def debug_body_def run_def getNodes_loop.simps run_loop.simps debug_loop.simps

lemmas spec_eval = spec_hooks_def processNode_spec_def absorb_def absorb_operands_def
  sat_union_def getOperand_def no_collab_def

section \<open>Saturation of points-to sets\<close>

text \<open>
  C1: on a node made by the constructor, after any sequence of
  \<^verbatim>\<open>addPointsTo\<close> calls (one at a time, or through the overload taking a set)
  the points-to set is saturated: it never holds \<open>(t, UNKNOWN)\<close> together
  with a concrete \<open>(t, c)\<close>. Adding a concrete offset for a target already
  present with UNKNOWN returns false and leaves the node as it was; adding
  \<open>(t, UNKNOWN)\<close> leaves \<open>(t, UNKNOWN)\<close> as the only entry for \<open>t\<close> and keeps
  the entries of the other targets.
\<close>

theorem addPointsTo_keeps_saturation:
  assumes "PSNode_new this k ps os = Inr nd0"
  shows "saturated (pointsTo (addPointsTo_calls cs nd0)) \<and>
         saturated (pointsTo (snd (addPointsTo_ptrs cs False nd0))) \<and>
         ((t, UNKNOWN_OFFSET) \<in> pointsTo (addPointsTo_calls cs nd0) \<longrightarrow>
            addPointsTo t (Concrete c) (addPointsTo_calls cs nd0)
              = (False, addPointsTo_calls cs nd0)) \<and>
         pointsTo (snd (addPointsTo t UNKNOWN_OFFSET (addPointsTo_calls cs nd0))) =
           insert (t, UNKNOWN_OFFSET) {p \<in> pointsTo (addPointsTo_calls cs nd0). fst p \<noteq> t}"
proof -
  have sat: "saturated (pointsTo (addPointsTo_calls cs nd0))"
    using assms by (simp add: PSNode_new_saturated addPointsTo_calls_saturated)
  show ?thesis
    using sat
    by (simp add: addPointsTo_ptrs_calls addPointsTo_concrete_noop addPointsTo_unknown_replaces)
qed

theorem addPointsTo_keeps_saturation_witness:
  "PSNode_new 0 ALLOC [] [] = Inr (mk 0 ALLOC []) \<and>
   saturated (pointsTo (addPointsTo_calls [(0, UNKNOWN_OFFSET), (0, Concrete 4)] (mk 0 ALLOC []))) \<and>
   pointsTo (addPointsTo_calls [(0, UNKNOWN_OFFSET), (0, Concrete 4)] (mk 0 ALLOC []))
     = {(0, UNKNOWN_OFFSET)}"
proof -
  have c: "PSNode_new 0 ALLOC [] [] = Inr (mk 0 ALLOC [])"
    by (simp add: mk_def)
  have p: "pointsTo (addPointsTo_calls [(0, UNKNOWN_OFFSET), (0, Concrete 4)] (mk 0 ALLOC []))
     = {(0, UNKNOWN_OFFSET)}"
    by (auto simp: graph_eval addPointsToUnknownOffset_def)
  show ?thesis
    using addPointsTo_keeps_saturation [OF c, of "[(0, UNKNOWN_OFFSET), (0, Concrete 4)]"] c p
    by blast
qed

section \<open>Operand access\<close>

text \<open>
  C9: \<^verbatim>\<open>getOperand(idx)\<close> fails its assertion when \<open>idx\<close> is negative or not
  below the number of operands, returns the operand at \<open>idx\<close> otherwise, and
  so never returns a value for an index out of range.
\<close>

theorem getOperand_checked:
  "(sint idx < 0 \<or> length (operands nd) \<le> nat (sint idx)
      \<longrightarrow> getOperand idx nd = Inl AssertionFailed) \<and>
   (0 \<le> sint idx \<and> nat (sint idx) < length (operands nd)
      \<longrightarrow> getOperand idx nd = Inr (operands nd ! nat (sint idx))) \<and>
   (getOperand idx nd = Inr v
      \<longrightarrow> 0 \<le> sint idx \<and> nat (sint idx) < length (operands nd))"
  by (auto simp: getOperand_def)

theorem getOperand_checked_witness:
  "getOperand (- 1) (mk 0 STORE [5, 6]) = Inl AssertionFailed \<and>
   getOperand 2 (mk 0 STORE [5, 6]) = Inl AssertionFailed \<and>
   getOperand 1 (mk 0 STORE [5, 6]) = Inr 6"
proof -
  have ops: "operands (mk 0 STORE [5, 6]) = [5, 6]"
    by (simp add: mk_def PSNode_init_def)
  have neg: "sint (- 1 :: 32 word) < 0" by simp
  have two: "sint (2 :: 32 word) = 2" by simp
  have one: "sint (1 :: 32 word) = 1" by simp
  show ?thesis
    using getOperand_checked [of "- 1" "mk 0 STORE [5, 6]"]
          getOperand_checked [of 2 "mk 0 STORE [5, 6]"]
          getOperand_checked [of 1 "mk 0 STORE [5, 6]"]
    by (simp add: ops neg two one)
qed

section \<open>Traversal\<close>

text \<open>
  C3: the enumerator marks the root, not the node it starts from. On the
  cycle \<open>0 \<rightarrow> 1 \<rightarrow> 0\<close> with root \<open>0\<close>, \<^verbatim>\<open>getNodes\<close> started at \<open>1\<close> into an
  empty container emits \<open>1\<close> alone, although \<open>0\<close> is a successor of \<open>1\<close>.
  On \<open>0 \<rightarrow> 1 \<rightarrow> 2 \<rightarrow> 1\<close> with root \<open>0\<close>, started at \<open>1\<close>, it emits \<open>1\<close>
  twice.
\<close>

theorem getNodes_marks_root_not_start:
  "map_comp fst (getNodes [] (Some 1) None (graph cycle_heap 0 ())) = Some (Inr [1]) \<and>
   successors (cycle_heap 1) = [0] \<and>
   map_comp fst (getNodes [] (Some 1) None (graph lasso_heap 0 ())) = Some (Inr [1, 2, 1])"
  by (simp add: graph_eval comp_eval solver_eval)

section \<open>Replacing the single successor\<close>

text \<open>
  C4: on the chain \<open>0 \<rightarrow> 1\<close>, after \<^verbatim>\<open>replaceSingleSuccessor\<close> of node \<open>0\<close>
  with the new successor \<open>2\<close>, node \<open>0\<close> has the successors \<open>[2]\<close> and is a
  predecessor of \<open>2\<close>, and it is still a predecessor of the old successor
  \<open>1\<close>: the copying loop keeps every entry.
\<close>

theorem replaceSingleSuccessor_keeps_back_edge:
  "map_sum id (edges_of 0) (replaceSingleSuccessor 0 2 chain_heap) = Inr ([2], []) \<and>
   map_sum id (edges_of 2) (replaceSingleSuccessor 0 2 chain_heap) = Inr ([], [0]) \<and>
   map_sum id (edges_of 1) (replaceSingleSuccessor 0 2 chain_heap) = Inr ([], [0])"
  by (simp add: graph_eval replaceSingleSuccessor_def)

section \<open>The fixpoint\<close>

text \<open>
  C2: on the loop \<open>0 \<rightarrow> 1 \<rightarrow> 2 \<rightarrow> 3 \<rightarrow> 0\<close> with root \<open>0\<close>, \<^verbatim>\<open>run()\<close> returns
  before the fixpoint. Without \<^verbatim>\<open>DEBUG_ENABLED\<close>, processing the root
  once more changes its set; with it, processing node \<open>1\<close>, the successor of
  the root, once more changes its set.
\<close>

theorem run_stops_before_fixpoint:
  "map_comp fst (bind_comp (run False (spec_hooks no_collab) (graph loop_heap 0 ()))
                   (processNode_spec no_collab 0)) = Some (Inr True) \<and>
   map_comp fst (bind_comp (run True (spec_hooks no_collab) (graph loop_heap 0 ()))
                   (processNode_spec no_collab 1)) = Some (Inr True) \<and>
   successors (loop_heap 0) = [1]"
  by (simp add: graph_eval comp_eval solver_eval spec_eval)

section \<open>The two worklist loops\<close>

lemma run_loop_result:
  assumes "run_loop h s = Some r"
  shows "\<forall>s'. r = Inr s' \<longrightarrow> queue s' = []"
  using assms
proof (rule run_loop.raw_induct [rotated 1])
  fix f h s r
  assume IH: "\<And>h s r. f h s = Some r \<Longrightarrow> \<forall>s'. r = Inr s' \<longrightarrow> queue s' = []"
    and step: "(case queue s of
        [] \<Rightarrow> Some (Inr s)
      | cur # rest \<Rightarrow>
          (case loop_body h cur (s\<lparr>queue := rest\<rparr>) of
             None \<Rightarrow> None
           | Some (Inl e) \<Rightarrow> Some (Inl e)
           | Some (Inr s') \<Rightarrow> f h s')) = Some r"
  show "\<forall>s'. r = Inr s' \<longrightarrow> queue s' = []"
    using step IH by (auto split: list.splits option.splits sum.splits)
qed

lemma run_loop_queue_empty:
  "run_loop h s = Some (Inr s') \<Longrightarrow> queue s' = []"
  using run_loop_result by blast

lemma run_loop_idle: "queue s = [] \<Longrightarrow> run_loop h s = Some (Inr s)"
  by (subst run_loop.simps) simp

lemma run_loop_twice:
  "bind_comp (run_loop h s) (\<lambda>s2. bind_comp (run_loop h s2) f) = bind_comp (run_loop h s) f"
proof (cases "run_loop h s")
  case None
  then show ?thesis by (simp add: bind_comp_def)
next
  case (Some r)
  show ?thesis
  proof (cases r)
    case (Inl e)
    with Some show ?thesis by (simp add: bind_comp_def)
  next
    case (Inr s2)
    with Some have "queue s2 = []" by (simp add: run_loop_queue_empty)
    then have "run_loop h s2 = Some (Inr s2)" by (rule run_loop_idle)
    with Some Inr show ?thesis by (simp add: bind_comp_def)
  qed
qed

text \<open>
  C10: \<^verbatim>\<open>run()\<close> and \<^verbatim>\<open>run()\<close> without its second loop give the same
  outcome on every state, for every choice of hooks and with or without
  \<^verbatim>\<open>DEBUG_ENABLED\<close>: when the first loop returns, the queue is empty, and
  from such a state the loop returns at once with the state unchanged.
\<close>

theorem run_second_loop_idle:
  "run debug h s = run_single debug h s \<and>
   (run_loop h s = Some (Inr s') \<longrightarrow> queue s' = [] \<and> run_loop h s' = Some (Inr s'))"
  by (auto simp: run_def run_single_def run_loop_twice run_loop_queue_empty run_loop_idle
           split: option.splits)

theorem run_second_loop_idle_witness:
  "\<exists>s'. run_loop (spec_hooks no_collab) ((graph loop_heap 0 ())\<lparr>queue := [0, 1, 2, 3]\<rparr>)
           = Some (Inr s') \<and>
        queue s' = [] \<and> run_loop (spec_hooks no_collab) s' = Some (Inr s')"
proof -
  obtain s' where r:
    "run_loop (spec_hooks no_collab) ((graph loop_heap 0 ())\<lparr>queue := [0, 1, 2, 3]\<rparr>)
       = Some (Inr s')"
    by (simp add: graph_eval comp_eval solver_eval spec_eval)
  from run_second_loop_idle [of False "spec_hooks no_collab"
         "(graph loop_heap 0 ())\<lparr>queue := [0, 1, 2, 3]\<rparr>" s'] r
  show ?thesis by blast
qed

section \<open>Inserting a node after another\<close>

lemma replace_ref_idem:
  "replace_ref n x (replace_ref n x ps) = replace_ref n x ps"
  by (induction ps) auto

lemma count_replace_ref:
  "count_list (replace_ref n x ps) a =
     (if x = n then count_list ps a
      else if a = n then 0
      else if a = x then count_list ps x + count_list ps n
      else count_list ps a)"
  by (induction ps) auto

lemma successors_replace_in_succs:
  "successors (replace_in_succs n x ss g m) = successors (g m)"
  by (induction ss arbitrary: g) auto

lemma predecessors_replace_in_succs:
  "predecessors (replace_in_succs n x ss g m) =
     (if m \<in> set ss then replace_ref n x (predecessors (g m)) else predecessors (g m))"
  by (induction ss arbitrary: g) (auto simp: replace_ref_idem)

lemma fresh_not_successor:
  assumes "edge_symmetric g" and "predecessors (g x) = []"
  shows "x \<notin> set (successors (g a))"
proof -
  have "count_list (successors (g a)) x = count_list (predecessors (g x)) a"
    using assms(1) by (simp add: edge_symmetric_def)
  then have "count_list (successors (g a)) x = 0" using assms(2) by simp
  then show ?thesis by (simp add: count_list_0_iff)
qed

lemma insertAfter_shape:
  assumes fresh: "predecessors (g x) = []" "successors (g x) = []"
    and ne: "x \<noteq> a"
  shows "\<exists>g'. insertAfter x a g = Inr g' \<and>
           (\<forall>m. successors (g' m) =
                  (if m = a then [x] else if m = x then successors (g a) else successors (g m))) \<and>
           (\<forall>m. predecessors (g' m) =
                  (if m \<in> set (successors (g a))
                   then replace_ref a x (if m = x then [a] else predecessors (g m))
                   else if m = x then [a] else predecessors (g m)))"
  using fresh ne
  by (auto simp: insertAfter_def addSuccessor_def Let_def successors_replace_in_succs
        predecessors_replace_in_succs)

text \<open>
  C6: in a graph with symmetric edges (each edge listed as often among the
  successors of its source as among the predecessors of its target), let
  \<open>a \<rightarrow> b\<close> be an edge and \<open>x\<close> a node with no successor and no
  predecessor. Then \<^verbatim>\<open>x.insertAfter(a)\<close> passes its assertions, and
  afterwards \<open>a\<close> has the single successor \<open>x\<close>, \<open>x\<close> has the single
  predecessor \<open>a\<close> and the former successors of \<open>a\<close>, among them \<open>b\<close>;
  \<open>x\<close> is a predecessor of \<open>b\<close> and \<open>a\<close> no longer is; and the edges are
  symmetric again.
\<close>

theorem insertAfter_chain:
  assumes sym: "edge_symmetric g"
    and fresh: "predecessors (g x) = []" "successors (g x) = []"
    and edge: "b \<in> set (successors (g a))"
  shows "\<exists>g'. insertAfter x a g = Inr g' \<and>
           successors (g' a) = [x] \<and> predecessors (g' x) = [a] \<and>
           successors (g' x) = successors (g a) \<and> b \<in> set (successors (g' x)) \<and>
           x \<in> set (predecessors (g' b)) \<and> a \<notin> set (predecessors (g' b)) \<and>
           edge_symmetric g'"
proof -
  have ne: "x \<noteq> a" using fresh(2) edge by auto
  have symc: "\<And>u v. count_list (successors (g u)) v = count_list (predecessors (g v)) u"
    using sym by (simp add: edge_symmetric_def)
  have xs: "\<And>m. x \<notin> set (successors (g m))"
    using sym fresh(1) by (rule fresh_not_successor)
  have xs0: "\<And>m. count_list (successors (g m)) x = 0"
    using xs by (simp add: count_list_0_iff)
  have xp: "\<And>m. count_list (predecessors (g m)) x = 0"
  proof -
    fix m
    have "count_list (predecessors (g m)) x = count_list (successors (g x)) m"
      by (simp add: symc)
    then show "count_list (predecessors (g m)) x = 0" using fresh(2) by simp
  qed
  obtain g' where r: "insertAfter x a g = Inr g'"
    and s: "\<And>m. successors (g' m) =
                  (if m = a then [x] else if m = x then successors (g a) else successors (g m))"
    and p: "\<And>m. predecessors (g' m) =
                  (if m \<in> set (successors (g a))
                   then replace_ref a x (if m = x then [a] else predecessors (g m))
                   else if m = x then [a] else predecessors (g m))"
    using insertAfter_shape [of g x a] fresh ne by blast
  have px: "predecessors (g' x) = [a]"
    using xs [of a] by (simp add: p)
  have pin: "\<And>v. v \<in> set (successors (g a)) \<Longrightarrow>
               predecessors (g' v) = replace_ref a x (predecessors (g v))"
    using xs [of a] by (auto simp: p)
  have pout: "\<And>v. v \<notin> set (successors (g a)) \<Longrightarrow> v \<noteq> x \<Longrightarrow>
               predecessors (g' v) = predecessors (g v)"
    by (simp add: p)
  have bx: "b \<noteq> x" using xs edge by blast
  have ab: "count_list (predecessors (g b)) a \<noteq> 0"
    using edge symc [of a b] by (metis count_list_0_iff)
  have "count_list (successors (g' u)) v = count_list (predecessors (g' v)) u" for u v
  proof (cases "v = x")
    case True
    then show ?thesis using ne by (simp add: s px xs0)
  next
    case vx: False
    show ?thesis
    proof (cases "v \<in> set (successors (g a))")
      case True
      then show ?thesis
        using ne vx symc [of a v] symc [of u v]
        by (simp add: s pin count_replace_ref xp)
    next
      case False
      then have "count_list (predecessors (g v)) a = 0"
        using symc [of a v] by (metis count_list_0_iff)
      then show ?thesis
        using ne vx False symc [of u v] by (simp add: s pout xp)
    qed
  qed
  then have "edge_symmetric g'"
    by (simp add: edge_symmetric_def)
  moreover have "count_list (predecessors (g' b)) x \<noteq> 0"
    using ab ne edge by (simp add: pin count_replace_ref)
  then have "x \<in> set (predecessors (g' b))"
    by (simp add: count_list_0_iff)
  moreover have "count_list (predecessors (g' b)) a = 0"
    using ne edge by (simp add: pin count_replace_ref)
  then have "a \<notin> set (predecessors (g' b))"
    by (simp add: count_list_0_iff)
  ultimately show ?thesis
    using r edge ne px by (simp add: s)
qed

theorem insertAfter_chain_witness:
  "edge_symmetric chain_heap \<and> predecessors (chain_heap 2) = [] \<and>
   successors (chain_heap 2) = [] \<and> 1 \<in> set (successors (chain_heap 0)) \<and>
   (\<exists>g'. insertAfter 2 0 chain_heap = Inr g' \<and> successors (g' 0) = [2] \<and>
         1 \<in> set (successors (g' 2)) \<and> 2 \<in> set (predecessors (g' 1)) \<and>
         0 \<notin> set (predecessors (g' 1)) \<and> edge_symmetric g')"
proof -
  have sym: "edge_symmetric chain_heap"
    by (simp add: graph_eval edge_symmetric_def)
  have p: "predecessors (chain_heap 2) = []" and s: "successors (chain_heap 2) = []"
    and e: "1 \<in> set (successors (chain_heap 0))"
    by (simp_all add: graph_eval)
  from insertAfter_chain [of chain_heap 2 1 0, OF sym p s e] sym p s e
  show ?thesis by blast
qed

section \<open>What the traversal touches and emits\<close>

lemma same_but_marks_refl: "same_but_marks g g"
  by (simp add: same_but_marks_def)

lemma same_but_marks_trans:
  "same_but_marks g g' \<Longrightarrow> same_but_marks g' g'' \<Longrightarrow> same_but_marks g g''"
  unfolding same_but_marks_def
proof (intro allI)
  fix m
  assume a: "\<forall>m. g' m = (g m)\<lparr>dfsid := dfsid (g' m)\<rparr>"
    and b: "\<forall>m. g'' m = (g' m)\<lparr>dfsid := dfsid (g'' m)\<rparr>"
  have "g'' m = (g' m)\<lparr>dfsid := dfsid (g'' m)\<rparr>" using b by blast
  also have "\<dots> = ((g m)\<lparr>dfsid := dfsid (g' m)\<rparr>)\<lparr>dfsid := dfsid (g'' m)\<rparr>"
    using a by metis
  finally show "g'' m = (g m)\<lparr>dfsid := dfsid (g'' m)\<rparr>" by simp
qed

lemma same_but_marks_mark:
  "same_but_marks g (g(n := (g n)\<lparr>dfsid := d\<rparr>))"
  by (simp add: same_but_marks_def)

lemma same_but_marks_fields:
  assumes "same_but_marks g g'"
  shows "successors (g' m) = successors (g m)" "pointsTo (g' m) = pointsTo (g m)"
    "type (g' m) = type (g m)" "operands (g' m) = operands (g m)"
    "predecessors (g' m) = predecessors (g m)"
proof -
  have e: "g' m = (g m)\<lparr>dfsid := dfsid (g' m)\<rparr>"
    using assms by (simp add: same_but_marks_def)
  show "successors (g' m) = successors (g m)" by (subst e) simp
  show "pointsTo (g' m) = pointsTo (g m)" by (subst e) simp
  show "type (g' m) = type (g m)" by (subst e) simp
  show "operands (g' m) = operands (g m)" by (subst e) simp
  show "predecessors (g' m) = predecessors (g m)" by (subst e) simp
qed

lemma mark_succs_frame:
  "mark_succs dn ss fifo g = (fifo', g') \<Longrightarrow>
     same_but_marks g g' \<and> (\<exists>new. fifo' = fifo @ new \<and> set new \<subseteq> set ss)"
proof (induction ss arbitrary: fifo g)
  case Nil
  then show ?case by (simp add: same_but_marks_refl)
next
  case (Cons a ss)
  show ?case
  proof (cases "dfsid (g a) \<noteq> dn")
    case True
    with Cons.prems have "mark_succs dn ss (fifo @ [a]) (g(a := (g a)\<lparr>dfsid := dn\<rparr>)) = (fifo', g')"
      by simp
    from Cons.IH [OF this] obtain new where
      f: "same_but_marks (g(a := (g a)\<lparr>dfsid := dn\<rparr>)) g'"
      and n: "fifo' = (fifo @ [a]) @ new" "set new \<subseteq> set ss" by blast
    have "same_but_marks g g'"
      using same_but_marks_mark f by (rule same_but_marks_trans)
    moreover have "fifo' = fifo @ (a # new)" using n by simp
    moreover have "set (a # new) \<subseteq> set (a # ss)" using n by auto
    ultimately show ?thesis by blast
  next
    case False
    with Cons.prems have "mark_succs dn ss fifo g = (fifo', g')" by simp
    from Cons.IH [OF this] show ?thesis by auto
  qed
qed

lemma getNodes_loop_frame:
  assumes "getNodes_loop dn fifo cont g = Some r"
  shows "same_but_marks g (snd r) \<and>
         (\<forall>R. set fifo \<subseteq> R \<and> (\<forall>m\<in>R. set (successors (g m)) \<subseteq> R) \<longrightarrow>
              (\<exists>out. fst r = cont @ fifo @ out \<and> set out \<subseteq> R))"
  using assms
proof (rule getNodes_loop.raw_induct [rotated 1])
  fix f dn fifo cont g r
  assume IH: "\<And>dn fifo cont g r. f dn fifo cont g = Some r \<Longrightarrow>
        same_but_marks g (snd r) \<and>
         (\<forall>R. set fifo \<subseteq> R \<and> (\<forall>m\<in>R. set (successors (g m)) \<subseteq> R) \<longrightarrow>
              (\<exists>out. fst r = cont @ fifo @ out \<and> set out \<subseteq> R))"
    and step: "(case fifo of
        [] \<Rightarrow> Some (cont, g)
      | cur # rest \<Rightarrow>
          (case mark_succs dn (successors (g cur)) rest g of
             (fifo', g') \<Rightarrow> f dn fifo' (cont @ [cur]) g')) = Some r"
  show "same_but_marks g (snd r) \<and>
         (\<forall>R. set fifo \<subseteq> R \<and> (\<forall>m\<in>R. set (successors (g m)) \<subseteq> R) \<longrightarrow>
              (\<exists>out. fst r = cont @ fifo @ out \<and> set out \<subseteq> R))"
  proof (cases fifo)
    case Nil
    with step show ?thesis by (auto simp: same_but_marks_refl)
  next
    case (Cons cur rest)
    obtain fifo' g' where ms: "mark_succs dn (successors (g cur)) rest g = (fifo', g')"
      by (cases "mark_succs dn (successors (g cur)) rest g")
    with step Cons have call: "f dn fifo' (cont @ [cur]) g' = Some r" by simp
    from mark_succs_frame [OF ms] obtain new where
      fr: "same_but_marks g g'" and nw: "fifo' = rest @ new" "set new \<subseteq> set (successors (g cur))"
      by blast
    note ih = IH [OF call]
    have a: "same_but_marks g (snd r)"
      using fr ih by (blast intro: same_but_marks_trans)
    have b: "\<exists>out. fst r = cont @ fifo @ out \<and> set out \<subseteq> R"
      if R: "set fifo \<subseteq> R" "\<forall>m\<in>R. set (successors (g m)) \<subseteq> R" for R
    proof -
      have curR: "cur \<in> R" using R(1) Cons by simp
      then have "set new \<subseteq> R" using nw(2) R(2) by blast
      then have 1: "set fifo' \<subseteq> R" using nw(1) R(1) Cons by auto
      have 2: "\<forall>m\<in>R. set (successors (g' m)) \<subseteq> R"
        using R(2) same_but_marks_fields(1) [OF fr] by simp
      from ih 1 2 obtain out where o: "fst r = (cont @ [cur]) @ fifo' @ out" "set out \<subseteq> R"
        by blast
      have "fst r = cont @ fifo @ (new @ out)" using o(1) nw(1) Cons by simp
      moreover have "set (new @ out) \<subseteq> R" using o(2) \<open>set new \<subseteq> R\<close> by simp
      ultimately show ?thesis by blast
    qed
    from a b show ?thesis by blast
  qed
qed

lemma reach_closed: "\<forall>m\<in>reach g n. set (successors (g m)) \<subseteq> reach g n"
  by (auto intro: reach.step)

lemma getNodes_unfold:
  assumes "getNodes cont sn ss s = Some (Inr (cont', s'))"
  shows "\<exists>r fifo g'. root s = Some r \<and>
           getNodes_loop (dfsnum s + 1) fifo cont
             ((nodes s)(r := (nodes s r)\<lparr>dfsid := dfsnum s + 1\<rparr>)) = Some (cont', g') \<and>
           fifo = (case ss of Some ss \<Rightarrow> sorted_list_of_set ss
                   | None \<Rightarrow> [case sn of None \<Rightarrow> r | Some n \<Rightarrow> n]) \<and>
           s' = s\<lparr>dfsnum := dfsnum s + 1, nodes := g'\<rparr>"
proof (cases "root s")
  case None
  with assms show ?thesis by (simp add: getNodes_def)
next
  case (Some r)
  show ?thesis
  proof (cases "ss \<noteq> None \<and> sn \<noteq> None")
    case True
    with assms Some show ?thesis by (simp add: getNodes_def)
  next
    case False
    with assms Some show ?thesis
      by (simp add: getNodes_def Let_def split: option.splits prod.splits)
  qed
qed

lemma getNodes_result:
  assumes "getNodes cont sn ss s = Some (Inr (cont', s'))"
  shows "same_but_marks (nodes s) (nodes s') \<and> root s' = root s \<and> queue s' = queue s \<and>
         aux s' = aux s \<and> dfsnum s' = dfsnum s + 1"
proof -
  from getNodes_unfold [OF assms] obtain r fifo g' where
    l: "getNodes_loop (dfsnum s + 1) fifo cont
          ((nodes s)(r := (nodes s r)\<lparr>dfsid := dfsnum s + 1\<rparr>)) = Some (cont', g')"
    and s': "s' = s\<lparr>dfsnum := dfsnum s + 1, nodes := g'\<rparr>"
    by blast
  have "same_but_marks ((nodes s)(r := (nodes s r)\<lparr>dfsid := dfsnum s + 1\<rparr>)) g'"
    using getNodes_loop_frame [OF l] by simp
  then have "same_but_marks (nodes s) g'"
    using same_but_marks_mark by (blast intro: same_but_marks_trans)
  then show ?thesis by (simp add: s')
qed

lemma getNodes_from_node:
  assumes "getNodes cont (Some n) None s = Some (Inr (cont', s'))"
  shows "\<exists>more. cont' = cont @ n # more \<and> set more \<subseteq> reach (nodes s) n"
proof -
  from getNodes_unfold [OF assms] obtain r g' where
    l: "getNodes_loop (dfsnum s + 1) [n] cont
          ((nodes s)(r := (nodes s r)\<lparr>dfsid := dfsnum s + 1\<rparr>)) = Some (cont', g')"
    by auto
  let ?g = "(nodes s)(r := (nodes s r)\<lparr>dfsid := dfsnum s + 1\<rparr>)"
  have sm: "same_but_marks (nodes s) ?g" by (rule same_but_marks_mark)
  have cl: "\<forall>m\<in>reach (nodes s) n. set (successors (?g m)) \<subseteq> reach (nodes s) n"
    using reach_closed [of "nodes s" n] same_but_marks_fields(1) [OF sm] by simp
  have "set [n] \<subseteq> reach (nodes s) n" by (simp add: reach.start)
  with getNodes_loop_frame [OF l] cl
  obtain out where "fst (cont', g') = cont @ [n] @ out" "set out \<subseteq> reach (nodes s) n"
    by blast
  then show ?thesis by auto
qed

subsection \<open>The traversal returns, and what it has emitted then\<close>






section \<open>One iteration of the main loop\<close>

lemma bind_comp_Inr:
  "bind_comp m f = Some (Inr y) \<Longrightarrow> \<exists>x. m = Some (Inr x) \<and> f x = Some (Inr y)"
  by (auto simp: bind_comp_def split: option.splits sum.splits)

lemma enqueue_default_result:
  assumes "enqueue_default n s = Some (Inr s')"
  shows "aux s' = aux s \<and> root s' = root s \<and> same_but_marks (nodes s) (nodes s') \<and>
         (\<exists>more. queue s' = queue s @ n # more \<and> set more \<subseteq> reach (nodes s) n)"
proof -
  from bind_comp_Inr [OF assms [unfolded enqueue_default_def]]
  obtain cont t where g: "getNodes (queue s) (Some n) None s = Some (Inr (cont, t))"
    and s': "s' = t\<lparr>queue := cont\<rparr>"
    by (auto simp: return_comp_def)
  from getNodes_result [OF g] getNodes_from_node [OF g] s'
  show ?thesis by auto
qed










section \<open>Nodes whose points-to set the solver never writes\<close>

lemma absorb_other:
  "absorb n Q s = (c, s') \<Longrightarrow> n \<noteq> m \<Longrightarrow> nodes s' m = nodes s m"
  by (auto simp: absorb_def Let_def)

lemma processNode_spec_keeps:
  assumes la: "leaves_alone collab m"
    and k: "type (nodes s m) \<in> {ALLOC, DYN_ALLOC, FUNCTION, NULL_ADDR, UNKNOWN_MEM}"
    and r: "processNode_spec collab n s = Some (Inr (c, s'))"
  shows "type (nodes s' m) = type (nodes s m) \<and> pointsTo (nodes s' m) = pointsTo (nodes s m)"
proof (cases "n = m")
  case True
  with k r show ?thesis
    by (auto simp: processNode_spec_def return_comp_def)
next
  case False
  have col: "collab n s = Some (Inr (c, s')) \<Longrightarrow> ?thesis"
    using la False by (simp add: leaves_alone_def)
  have ab: "\<And>Q. absorb n Q s = (c, s') \<Longrightarrow> ?thesis"
    using False by (simp add: absorb_other)
  show ?thesis
  proof (cases "type (nodes s n)")
    case GEP
    with r ab show ?thesis
      by (auto simp: processNode_spec_def return_comp_def split: sum.splits)
  next
    case CAST
    with r ab show ?thesis
      by (auto simp: processNode_spec_def return_comp_def split: sum.splits)
  qed (use r col ab in \<open>auto simp: processNode_spec_def return_comp_def absorb_operands_def\<close>)
qed

lemma seed_queue_keeps:
  assumes "seed_queue s = Some (Inr s')"
  shows "type (nodes s' m) = type (nodes s m) \<and> pointsTo (nodes s' m) = pointsTo (nodes s m)"
proof -
  from assms obtain r where
    b: "bind_comp (getNodes (queue s @ [r]) None None s)
          (\<lambda>(cont, s'). return_comp (s'\<lparr>queue := cont\<rparr>)) = Some (Inr s')"
    by (auto simp: seed_queue_def split: option.splits)
  from bind_comp_Inr [OF b]
  obtain cont t where g: "getNodes (queue s @ [r]) None None s = Some (Inr (cont, t))"
    and s': "s' = t\<lparr>queue := cont\<rparr>"
    by (auto simp: return_comp_def)
  from getNodes_result [OF g] have "same_but_marks (nodes s) (nodes t)" by simp
  from same_but_marks_fields(2,3) [OF this] s' show ?thesis by simp
qed

lemma loop_body_keeps:
  assumes la: "leaves_alone collab m"
    and k: "type (nodes s m) \<in> {ALLOC, DYN_ALLOC, FUNCTION, NULL_ADDR, UNKNOWN_MEM}"
    and r: "loop_body (spec_hooks collab) cur s = Some (Inr s')"
  shows "type (nodes s' m) = type (nodes s m) \<and> pointsTo (nodes s' m) = pointsTo (nodes s m)"
proof -
  from r obtain c s2 s3 where
    p: "processNode_spec collab cur s = Some (Inr (c, s2))"
    and e: "(if c then enqueue_default cur s2 else return_comp s2) = Some (Inr s3)"
    and a: "s' = s3"
    by (auto simp: loop_body_def spec_hooks_def hook_default_def return_comp_def
             dest!: bind_comp_Inr cong: if_cong)
  note 1 = processNode_spec_keeps [OF la k p]
  have 2: "type (nodes s3 m) = type (nodes s2 m) \<and> pointsTo (nodes s3 m) = pointsTo (nodes s2 m)"
  proof (cases c)
    case True
    with e have "enqueue_default cur s2 = Some (Inr s3)" by simp
    from enqueue_default_result [OF this] have "same_but_marks (nodes s2) (nodes s3)" by simp
    from same_but_marks_fields(2,3) [OF this] show ?thesis by simp
  next
    case False
    with e show ?thesis by (simp add: return_comp_def)
  qed
  from 1 2 a show ?thesis by simp
qed

lemma debug_body_keeps:
  assumes la: "leaves_alone collab m"
    and k: "type (nodes s m) \<in> {ALLOC, DYN_ALLOC, FUNCTION, NULL_ADDR, UNKNOWN_MEM}"
    and r: "debug_body (spec_hooks collab) cur s = Some (Inr s')"
  shows "type (nodes s' m) = type (nodes s m) \<and> pointsTo (nodes s' m) = pointsTo (nodes s m)"
proof -
  from r obtain c where
    p: "processNode_spec collab cur s = Some (Inr (c, s'))"
    by (auto simp: debug_body_def spec_hooks_def hook_default_def return_comp_def
             dest!: bind_comp_Inr)
  from processNode_spec_keeps [OF la k p] show ?thesis .
qed

lemma run_loop_keeps:
  assumes r: "run_loop h s = Some res"
  shows "\<forall>collab s'. h = spec_hooks collab \<and> leaves_alone collab m \<and>
           type (nodes s m) \<in> {ALLOC, DYN_ALLOC, FUNCTION, NULL_ADDR, UNKNOWN_MEM} \<and>
           res = Inr s' \<longrightarrow>
           type (nodes s' m) = type (nodes s m) \<and> pointsTo (nodes s' m) = pointsTo (nodes s m)"
  using r
proof (rule run_loop.raw_induct [rotated 1])
  fix f h s res
  assume IH: "\<And>h s res. f h s = Some res \<Longrightarrow>
       \<forall>collab s'. h = spec_hooks collab \<and> leaves_alone collab m \<and>
           type (nodes s m) \<in> {ALLOC, DYN_ALLOC, FUNCTION, NULL_ADDR, UNKNOWN_MEM} \<and>
           res = Inr s' \<longrightarrow>
           type (nodes s' m) = type (nodes s m) \<and> pointsTo (nodes s' m) = pointsTo (nodes s m)"
    and step: "(case queue s of
        [] \<Rightarrow> Some (Inr s)
      | cur # rest \<Rightarrow>
          (case loop_body h cur (s\<lparr>queue := rest\<rparr>) of
             None \<Rightarrow> None
           | Some (Inl e) \<Rightarrow> Some (Inl e)
           | Some (Inr s') \<Rightarrow> f h s')) = Some res"
  show "\<forall>collab s'. h = spec_hooks collab \<and> leaves_alone collab m \<and>
           type (nodes s m) \<in> {ALLOC, DYN_ALLOC, FUNCTION, NULL_ADDR, UNKNOWN_MEM} \<and>
           res = Inr s' \<longrightarrow>
           type (nodes s' m) = type (nodes s m) \<and> pointsTo (nodes s' m) = pointsTo (nodes s m)"
  proof (intro allI impI, elim conjE)
    fix collab s'
    assume h: "h = spec_hooks collab" and la: "leaves_alone collab m"
      and k: "type (nodes s m) \<in> {ALLOC, DYN_ALLOC, FUNCTION, NULL_ADDR, UNKNOWN_MEM}"
      and res: "res = Inr s'"
    show "type (nodes s' m) = type (nodes s m) \<and> pointsTo (nodes s' m) = pointsTo (nodes s m)"
    proof (cases "queue s")
      case Nil
      with step res show ?thesis by simp
    next
      case (Cons cur rest)
      with step res obtain s1 where
        b: "loop_body h cur (s\<lparr>queue := rest\<rparr>) = Some (Inr s1)" and c: "f h s1 = Some (Inr s')"
        by (auto split: option.splits sum.splits)
      have k0: "type (nodes (s\<lparr>queue := rest\<rparr>) m) \<in> {ALLOC, DYN_ALLOC, FUNCTION, NULL_ADDR, UNKNOWN_MEM}"
        using k by simp
      from loop_body_keeps [OF la k0 b [unfolded h]]
      have 1: "type (nodes s1 m) = type (nodes s m)" "pointsTo (nodes s1 m) = pointsTo (nodes s m)"
        by simp_all
      have k1: "type (nodes s1 m) \<in> {ALLOC, DYN_ALLOC, FUNCTION, NULL_ADDR, UNKNOWN_MEM}"
        using k 1 by simp
      from IH [OF c] h la k1 have
        "type (nodes s' m) = type (nodes s1 m) \<and> pointsTo (nodes s' m) = pointsTo (nodes s1 m)"
        by blast
      with 1 show ?thesis by simp
    qed
  qed
qed

lemma debug_loop_keeps:
  assumes r: "debug_loop h s = Some res"
  shows "\<forall>collab s'. h = spec_hooks collab \<and> leaves_alone collab m \<and>
           type (nodes s m) \<in> {ALLOC, DYN_ALLOC, FUNCTION, NULL_ADDR, UNKNOWN_MEM} \<and>
           res = Inr s' \<longrightarrow>
           type (nodes s' m) = type (nodes s m) \<and> pointsTo (nodes s' m) = pointsTo (nodes s m)"
  using r
proof (rule debug_loop.raw_induct [rotated 1])
  fix f h s res
  assume IH: "\<And>h s res. f h s = Some res \<Longrightarrow>
       \<forall>collab s'. h = spec_hooks collab \<and> leaves_alone collab m \<and>
           type (nodes s m) \<in> {ALLOC, DYN_ALLOC, FUNCTION, NULL_ADDR, UNKNOWN_MEM} \<and>
           res = Inr s' \<longrightarrow>
           type (nodes s' m) = type (nodes s m) \<and> pointsTo (nodes s' m) = pointsTo (nodes s m)"
    and step: "(case queue s of
        [] \<Rightarrow> Some (Inr s)
      | cur # rest \<Rightarrow>
          (case debug_body h cur (s\<lparr>queue := rest\<rparr>) of
             None \<Rightarrow> None
           | Some (Inl e) \<Rightarrow> Some (Inl e)
           | Some (Inr s') \<Rightarrow> f h s')) = Some res"
  show "\<forall>collab s'. h = spec_hooks collab \<and> leaves_alone collab m \<and>
           type (nodes s m) \<in> {ALLOC, DYN_ALLOC, FUNCTION, NULL_ADDR, UNKNOWN_MEM} \<and>
           res = Inr s' \<longrightarrow>
           type (nodes s' m) = type (nodes s m) \<and> pointsTo (nodes s' m) = pointsTo (nodes s m)"
  proof (intro allI impI, elim conjE)
    fix collab s'
    assume h: "h = spec_hooks collab" and la: "leaves_alone collab m"
      and k: "type (nodes s m) \<in> {ALLOC, DYN_ALLOC, FUNCTION, NULL_ADDR, UNKNOWN_MEM}"
      and res: "res = Inr s'"
    show "type (nodes s' m) = type (nodes s m) \<and> pointsTo (nodes s' m) = pointsTo (nodes s m)"
    proof (cases "queue s")
      case Nil
      with step res show ?thesis by simp
    next
      case (Cons cur rest)
      with step res obtain s1 where
        b: "debug_body h cur (s\<lparr>queue := rest\<rparr>) = Some (Inr s1)" and c: "f h s1 = Some (Inr s')"
        by (auto split: option.splits sum.splits)
      have k0: "type (nodes (s\<lparr>queue := rest\<rparr>) m) \<in> {ALLOC, DYN_ALLOC, FUNCTION, NULL_ADDR, UNKNOWN_MEM}"
        using k by simp
      from debug_body_keeps [OF la k0 b [unfolded h]]
      have 1: "type (nodes s1 m) = type (nodes s m)" "pointsTo (nodes s1 m) = pointsTo (nodes s m)"
        by simp_all
      have k1: "type (nodes s1 m) \<in> {ALLOC, DYN_ALLOC, FUNCTION, NULL_ADDR, UNKNOWN_MEM}"
        using k 1 by simp
      from IH [OF c] h la k1 have
        "type (nodes s' m) = type (nodes s1 m) \<and> pointsTo (nodes s' m) = pointsTo (nodes s1 m)"
        by blast
      with 1 show ?thesis by simp
    qed
  qed
qed

lemma run_keeps:
  assumes la: "leaves_alone collab m"
    and k: "type (nodes s m) \<in> {ALLOC, DYN_ALLOC, FUNCTION, NULL_ADDR, UNKNOWN_MEM}"
    and r: "run debug (spec_hooks collab) s = Some (Inr s')"
  shows "type (nodes s' m) = type (nodes s m) \<and> pointsTo (nodes s' m) = pointsTo (nodes s m)"
proof -
  from r obtain rt where rt: "root s = Some rt"
    by (auto simp: run_def split: option.splits)
  from r [unfolded run_def] rt obtain s1 s2 s3 where
    a: "seed_queue s = Some (Inr s1)"
    and b: "run_loop (spec_hooks collab) s1 = Some (Inr s2)"
    and c: "run_loop (spec_hooks collab) s2 = Some (Inr s3)"
    and d: "(if debug then bind_comp (seed_queue s3) (debug_loop (spec_hooks collab))
             else return_comp s3) = Some (Inr s')"
    by (auto dest!: bind_comp_Inr)
  note 1 = seed_queue_keeps [OF a, of m]
  have k1: "type (nodes s1 m) \<in> {ALLOC, DYN_ALLOC, FUNCTION, NULL_ADDR, UNKNOWN_MEM}"
    using k 1 by simp
  from run_loop_keeps [OF b, of m] la k1
  have 2: "type (nodes s2 m) = type (nodes s1 m) \<and> pointsTo (nodes s2 m) = pointsTo (nodes s1 m)"
    by blast
  have k2: "type (nodes s2 m) \<in> {ALLOC, DYN_ALLOC, FUNCTION, NULL_ADDR, UNKNOWN_MEM}"
    using k1 2 by simp
  from run_loop_keeps [OF c, of m] la k2
  have 3: "type (nodes s3 m) = type (nodes s2 m) \<and> pointsTo (nodes s3 m) = pointsTo (nodes s2 m)"
    by blast
  have k3: "type (nodes s3 m) \<in> {ALLOC, DYN_ALLOC, FUNCTION, NULL_ADDR, UNKNOWN_MEM}"
    using k2 3 by simp
  have 4: "type (nodes s' m) = type (nodes s3 m) \<and> pointsTo (nodes s' m) = pointsTo (nodes s3 m)"
  proof (cases debug)
    case True
    with d obtain s4 where e: "seed_queue s3 = Some (Inr s4)"
      and f: "debug_loop (spec_hooks collab) s4 = Some (Inr s')"
      by (auto dest!: bind_comp_Inr)
    note 5 = seed_queue_keeps [OF e, of m]
    have k4: "type (nodes s4 m) \<in> {ALLOC, DYN_ALLOC, FUNCTION, NULL_ADDR, UNKNOWN_MEM}"
      using k3 5 by simp
    from debug_loop_keeps [OF f, of m] la k4 5 show ?thesis by auto
  next
    case False
    with d show ?thesis by (simp add: return_comp_def)
  qed
  from 1 2 3 4 show ?thesis by simp
qed

section \<open>The sentinels\<close>

lemma leaves_alone_no_collab: "leaves_alone no_collab m"
  by (simp add: leaves_alone_def no_collab_def return_comp_def)

lemma getNodes_keeps:
  assumes "getNodes cont sn ss s = Some (Inr (cont', s'))"
  shows "type (nodes s' m) = type (nodes s m) \<and> pointsTo (nodes s' m) = pointsTo (nodes s m)"
proof -
  from getNodes_result [OF assms] have "same_but_marks (nodes s) (nodes s')" by simp
  from same_but_marks_fields(2,3) [OF this] show ?thesis by simp
qed

text \<open>
  C7: the constructor gives a NULL_ADDR node the points-to set
  \<open>{(self, 0)}\<close> and an UNKNOWN_MEM node the set \<open>{(self, UNKNOWN)}\<close>.
  The solver leaves the kind and the set of such a node \<open>m\<close> as they are:
  the traversal \<^verbatim>\<open>getNodes\<close>, the transfer function of any node \<open>n\<close>, and
  \<^verbatim>\<open>run()\<close> as a whole, with or without \<^verbatim>\<open>DEBUG_ENABLED\<close>, provided the
  collaborator behind LOAD, STORE, MEMCPY and CALL_FUNCPTR writes no set but
  that of the node it processes.
\<close>

theorem sentinels_constant:
  "map_sum id pointsTo (PSNode_new this NULL_ADDR ps os) = Inr {(this, Concrete 0)} \<and>
   map_sum id pointsTo (PSNode_new this UNKNOWN_MEM ps os) = Inr {(this, UNKNOWN_OFFSET)} \<and>
   (type (nodes s m) \<in> {NULL_ADDR, UNKNOWN_MEM} \<and>
    getNodes cont sn ss s = Some (Inr (cont', s1)) \<longrightarrow>
      type (nodes s1 m) = type (nodes s m) \<and> pointsTo (nodes s1 m) = pointsTo (nodes s m)) \<and>
   (leaves_alone collab m \<and> type (nodes s m) \<in> {NULL_ADDR, UNKNOWN_MEM} \<and>
    processNode_spec collab n s = Some (Inr (c, s2)) \<longrightarrow>
      type (nodes s2 m) = type (nodes s m) \<and> pointsTo (nodes s2 m) = pointsTo (nodes s m)) \<and>
   (leaves_alone collab m \<and> type (nodes s m) \<in> {NULL_ADDR, UNKNOWN_MEM} \<and>
    run debug (spec_hooks collab) s = Some (Inr s') \<longrightarrow>
      type (nodes s' m) = type (nodes s m) \<and> pointsTo (nodes s' m) = pointsTo (nodes s m))"
proof -
  have k: "type (nodes s m) \<in> {ALLOC, DYN_ALLOC, FUNCTION, NULL_ADDR, UNKNOWN_MEM}"
    if "type (nodes s m) \<in> {NULL_ADDR, UNKNOWN_MEM}"
    using that by auto
  have 1: "map_sum id pointsTo (PSNode_new this NULL_ADDR ps os) = Inr {(this, Concrete 0)}"
    by (simp add: PSNode_init_def)
  have 2: "map_sum id pointsTo (PSNode_new this UNKNOWN_MEM ps os) = Inr {(this, UNKNOWN_OFFSET)}"
    by (simp add: PSNode_init_def)
  show ?thesis
    using 1 2 k getNodes_keeps [of cont sn ss s cont' s1 m]
      processNode_spec_keeps [of collab m s n c s2] run_keeps [of collab m s debug s']
    by blast
qed

theorem sentinels_constant_witness:
  "leaves_alone (no_collab :: nat \<Rightarrow> unit PointerSubgraph \<Rightarrow> (bool \<times> unit PointerSubgraph) comp) 1 \<and>
   type (nodes (graph sentinel_heap 0 ()) 1) \<in> {NULL_ADDR, UNKNOWN_MEM} \<and>
   (\<exists>s'. run True (spec_hooks no_collab) (graph sentinel_heap 0 ()) = Some (Inr s') \<and>
         pointsTo (nodes s' 1) = {(1, Concrete 0)}) \<and>
   (\<exists>c s2. processNode_spec no_collab 0 (graph sentinel_heap 0 ()) = Some (Inr (c, s2)) \<and>
         pointsTo (nodes s2 1) = {(1, Concrete 0)}) \<and>
   (\<exists>cont' s1. getNodes [] None None (graph sentinel_heap 0 ()) = Some (Inr (cont', s1)) \<and>
         pointsTo (nodes s1 1) = {(1, Concrete 0)})"
proof -
  let ?s = "graph sentinel_heap 0 ()"
  have la: "leaves_alone (no_collab :: nat \<Rightarrow> unit PointerSubgraph \<Rightarrow> _) 1"
    by (rule leaves_alone_no_collab)
  have k: "type (nodes ?s 1) \<in> {NULL_ADDR, UNKNOWN_MEM}"
    and p: "pointsTo (nodes ?s 1) = {(1, Concrete 0)}"
    by (simp_all add: graph_eval)
  obtain s' where r: "run True (spec_hooks no_collab) ?s = Some (Inr s')"
    by (simp add: graph_eval comp_eval solver_eval spec_eval)
  obtain c s2 where t: "processNode_spec no_collab 0 ?s = Some (Inr (c, s2))"
    by (simp add: graph_eval comp_eval spec_eval)
  obtain cont' s1 where g: "getNodes [] None None ?s = Some (Inr (cont', s1))"
    by (simp add: graph_eval comp_eval solver_eval)
  note inst = sentinels_constant [of 1 "[]" "[]" ?s 1 "[]" None None cont' s1 no_collab 0 c s2 True s']
  have 1: "pointsTo (nodes s' 1) = pointsTo (nodes ?s 1)"
    using inst la k r by blast
  have 2: "pointsTo (nodes s2 1) = pointsTo (nodes ?s 1)"
    using inst la k t by blast
  have 3: "pointsTo (nodes s1 1) = pointsTo (nodes ?s 1)"
    using inst k g by blast
  show ?thesis
    using la k r t g 1 2 3 p by simp
qed

section \<open>The self pointer of allocations\<close>

lemma addPointsTo_keeps_entry:
  "p \<in> pointsTo nd \<Longrightarrow> (t, o') \<noteq> (fst p, UNKNOWN_OFFSET) \<Longrightarrow>
   p \<in> pointsTo (snd (addPointsTo t o' nd))"
  by (auto simp: addPointsTo_def addPointsToUnknownOffset_def Let_def isUnknown_iff)

lemma addPointsTo_covers:
  "p \<in> pointsTo nd \<or> (fst p, UNKNOWN_OFFSET) \<in> pointsTo nd \<Longrightarrow>
   p \<in> pointsTo (snd (addPointsTo t o' nd)) \<or>
   (fst p, UNKNOWN_OFFSET) \<in> pointsTo (snd (addPointsTo t o' nd))"
  by (auto simp: addPointsTo_def addPointsToUnknownOffset_def Let_def isUnknown_iff)

lemma addPointsTo_calls_keeps_entry:
  "p \<in> pointsTo nd \<Longrightarrow> (fst p, UNKNOWN_OFFSET) \<notin> set cs \<Longrightarrow>
   p \<in> pointsTo (addPointsTo_calls cs nd)"
proof (induction cs arbitrary: nd)
  case Nil
  then show ?case by simp
next
  case (Cons c cs)
  from Cons.prems have "(fst c, snd c) \<noteq> (fst p, UNKNOWN_OFFSET)" by auto
  with Cons.prems(1) have "p \<in> pointsTo (snd (addPointsTo (fst c) (snd c) nd))"
    by (rule addPointsTo_keeps_entry)
  with Cons show ?case by simp
qed

lemma addPointsTo_calls_covers:
  "p \<in> pointsTo nd \<or> (fst p, UNKNOWN_OFFSET) \<in> pointsTo nd \<Longrightarrow>
   p \<in> pointsTo (addPointsTo_calls cs nd) \<or>
   (fst p, UNKNOWN_OFFSET) \<in> pointsTo (addPointsTo_calls cs nd)"
proof (induction cs arbitrary: nd)
  case Nil
  then show ?case by simp
next
  case (Cons c cs)
  from addPointsTo_covers [OF Cons.prems] Cons.IH show ?case by simp
qed

lemma PSNode_new_self_pointer:
  "k \<in> {ALLOC, DYN_ALLOC, FUNCTION} \<Longrightarrow> PSNode_new this k ps os = Inr nd \<Longrightarrow>
   (this, Concrete 0) \<in> pointsTo nd"
  by (auto simp: addPointsTo_def PSNode_init_def)

text \<open>
  C8, as the code has it: a node constructed with kind ALLOC, DYN_ALLOC or
  FUNCTION holds \<open>(self, 0)\<close> right after construction. A sequence of
  \<^verbatim>\<open>addPointsTo\<close> calls without \<open>(self, UNKNOWN)\<close> keeps that entry; any
  sequence keeps \<open>(self, 0)\<close> or holds \<open>(self, UNKNOWN)\<close> in its place. And
  \<^verbatim>\<open>run()\<close> leaves the set of such a node as it is, provided the
  collaborator writes no set but that of the node it processes.
\<close>

theorem allocation_self_pointer:
  "(k \<in> {ALLOC, DYN_ALLOC, FUNCTION} \<and> PSNode_new this k ps os = Inr nd \<longrightarrow>
      (this, Concrete 0) \<in> pointsTo nd \<and>
      ((this, UNKNOWN_OFFSET) \<notin> set cs \<longrightarrow>
          (this, Concrete 0) \<in> pointsTo (addPointsTo_calls cs nd)) \<and>
      ((this, Concrete 0) \<in> pointsTo (addPointsTo_calls cs nd) \<or>
       (this, UNKNOWN_OFFSET) \<in> pointsTo (addPointsTo_calls cs nd))) \<and>
   (leaves_alone collab m \<and> type (nodes s m) \<in> {ALLOC, DYN_ALLOC, FUNCTION} \<and>
    run debug (spec_hooks collab) s = Some (Inr s') \<longrightarrow>
      pointsTo (nodes s' m) = pointsTo (nodes s m))"
proof -
  have k: "type (nodes s m) \<in> {ALLOC, DYN_ALLOC, FUNCTION, NULL_ADDR, UNKNOWN_MEM}"
    if "type (nodes s m) \<in> {ALLOC, DYN_ALLOC, FUNCTION}"
    using that by auto
  have a: "(this, Concrete 0) \<in> pointsTo nd \<and>
      ((this, UNKNOWN_OFFSET) \<notin> set cs \<longrightarrow>
          (this, Concrete 0) \<in> pointsTo (addPointsTo_calls cs nd)) \<and>
      ((this, Concrete 0) \<in> pointsTo (addPointsTo_calls cs nd) \<or>
       (this, UNKNOWN_OFFSET) \<in> pointsTo (addPointsTo_calls cs nd))"
    if "k \<in> {ALLOC, DYN_ALLOC, FUNCTION}" "PSNode_new this k ps os = Inr nd"
  proof -
    have in0: "(this, Concrete 0) \<in> pointsTo nd"
      using that by (rule PSNode_new_self_pointer)
    show ?thesis
      using in0 addPointsTo_calls_keeps_entry [of "(this, Concrete 0)" nd cs]
        addPointsTo_calls_covers [of "(this, Concrete 0)" nd cs]
      by simp
  qed
  show ?thesis
    using a k run_keeps [of collab m s debug s'] by blast
qed

theorem allocation_self_pointer_witness:
  "ALLOC \<in> {ALLOC, DYN_ALLOC, FUNCTION} \<and> PSNode_new 4 ALLOC [] [] = Inr (mk 4 ALLOC []) \<and>
   (4, UNKNOWN_OFFSET) \<notin> set [(4 :: nat, Concrete 8), (1, UNKNOWN_OFFSET)] \<and>
   (4, Concrete 0) \<in> pointsTo (addPointsTo_calls [(4, Concrete 8), (1, UNKNOWN_OFFSET)] (mk 4 ALLOC [])) \<and>
   leaves_alone (no_collab :: nat \<Rightarrow> unit PointerSubgraph \<Rightarrow> (bool \<times> unit PointerSubgraph) comp) 4 \<and>
   type (nodes (graph loop_heap 0 ()) 4) \<in> {ALLOC, DYN_ALLOC, FUNCTION} \<and>
   (\<exists>s'. run True (spec_hooks no_collab) (graph loop_heap 0 ()) = Some (Inr s') \<and>
         pointsTo (nodes s' 4) = {(4, Concrete 0)})"
proof -
  let ?s = "graph loop_heap 0 ()"
  have c: "PSNode_new 4 ALLOC [] [] = Inr (mk 4 ALLOC [])"
    by (simp add: mk_def)
  have n: "(4, UNKNOWN_OFFSET) \<notin> set [(4 :: nat, Concrete 8), (1, UNKNOWN_OFFSET)]"
    by simp
  have la: "leaves_alone (no_collab :: nat \<Rightarrow> unit PointerSubgraph \<Rightarrow> _) 4"
    by (rule leaves_alone_no_collab)
  have k: "type (nodes ?s 4) \<in> {ALLOC, DYN_ALLOC, FUNCTION}"
    and p: "pointsTo (nodes ?s 4) = {(4, Concrete 0)}"
    by (simp_all add: graph_eval)
  obtain s' where r: "run True (spec_hooks no_collab) ?s = Some (Inr s')"
    by (simp add: graph_eval comp_eval solver_eval spec_eval)
  note inst = allocation_self_pointer [of ALLOC 4 "[]" "[]" "mk 4 ALLOC []"
      "[(4, Concrete 8), (1, UNKNOWN_OFFSET)]" no_collab 4 ?s True s']
  have a: "ALLOC \<in> {ALLOC, DYN_ALLOC, FUNCTION}" by simp
  have 1: "(4, Concrete 0) \<in> pointsTo (addPointsTo_calls [(4, Concrete 8), (1, UNKNOWN_OFFSET)] (mk 4 ALLOC []))"
    using inst a c n by blast
  have 2: "pointsTo (nodes s' 4) = pointsTo (nodes ?s 4)"
    using inst la k r by blast
  show ?thesis
    using a c n la k r 1 2 p by simp
qed

text \<open>
  C8, as stated, fails: on the allocation at address \<open>0\<close>, which holds
  \<open>(0, 0)\<close> after construction, \<^verbatim>\<open>addPointsTo(self, UNKNOWN_OFFSET)\<close>
  removes that entry.
\<close>

theorem unknown_offset_replaces_self_pointer:
  "PSNode_new 0 ALLOC [] [] = Inr (mk 0 ALLOC []) \<and>
   (0, Concrete 0) \<in> pointsTo (mk 0 ALLOC []) \<and>
   (0, Concrete 0) \<notin> pointsTo (snd (addPointsTo 0 UNKNOWN_OFFSET (mk 0 ALLOC [])))"
  by (auto simp: graph_eval addPointsToUnknownOffset_def)

end
